theory Spec2Isabelle
  imports Main "HOL-Library.Word"
begin

section \<open>List versus vector: the ordered-sequence benchmark (src/lvv/lvv.h, src/lvv/lvv.cpp)\<close>

text \<open>
  The values stored in the sequences are C++ \<open>int\<close>s. The program only copies and compares
  them (\<open>*it < n\<close>), it never computes with them, so they are modelled as \<open>int\<close>.
  Indices and counts are \<open>size_t\<close>, an unsigned 64-bit word whose arithmetic wraps around;
  the loop that builds the removal plan depends on that wrap-around.
\<close>

type_synonym size_t = "64 word"

text \<open>
  Every way in which a call can fail to return is a value of \<open>failure\<close>:
  a failed \<open>assert\<close> of a checked build, an \<open>exit(1)\<close> together with the text written to
  \<open>cerr\<close> before it, the two exceptions \<open>std::stoi\<close> throws (nothing in the program
  catches them), and the operations whose behaviour C++ leaves undefined: stepping an iterator
  past \<open>end()\<close>, erasing at \<open>end()\<close>, and an integer division by zero.
\<close>

datatype failure =
    AssertionFailed
  | Exited string nat
  | InvalidArgument
  | OutOfRange
  | PastTheEnd
  | DivisionByZero

subsection \<open>\<open>utils::insert_in_numerical_order\<close> on \<open>std::vector<int>\<close>\<close>

text \<open>
  A vector is the list of its elements and an iterator is an index into it.
  The scan \<open>while(it != v.end() && *it < n) { ++it; }\<close> starts at \<open>v.begin()\<close> and moves one
  element at a time, so \<open>it != v.end()\<close> is \<open>it < length v\<close>.
\<close>

function vector_scan :: "int list \<Rightarrow> int \<Rightarrow> nat \<Rightarrow> nat" where
  "vector_scan v n it = (if it < length v \<and> v ! it < n then vector_scan v n (Suc it) else it)"
  by pat_completeness auto
termination
  by (relation "measure (\<lambda>(v, n, it). length v - it)") auto

declare vector_scan.simps [simp del]

definition vector_insert :: "int list \<Rightarrow> nat \<Rightarrow> int \<Rightarrow> int list" where
  "vector_insert v it n = take it v @ n # drop it v"

definition insert_in_numerical_order_vector :: "int list \<Rightarrow> int \<Rightarrow> int list" where
  "insert_in_numerical_order_vector v n =
     (if v = [] then v @ [n]
      else let it = vector_scan v n 0 in vector_insert v it n)"

subsection \<open>\<open>utils::insert_in_numerical_order\<close> on \<open>std::list<int>\<close>\<close>

text \<open>
  A \<open>std::list\<close> iterator can only be moved one node at a time. It is modelled as the pair of
  the nodes already passed (nearest first) and the nodes from the iterator on;
  \<open>l.end()\<close> is the iterator with nothing left in front of it.
\<close>

type_synonym list_iterator = "int list \<times> int list"

definition list_begin :: "int list \<Rightarrow> list_iterator" where
  "list_begin l = ([], l)"

fun list_scan :: "list_iterator \<Rightarrow> int \<Rightarrow> list_iterator" where
  "list_scan (passed, []) n = (passed, [])"
| "list_scan (passed, x # rest) n =
     (if x < n then list_scan (x # passed, rest) n else (passed, x # rest))"

fun list_insert :: "list_iterator \<Rightarrow> int \<Rightarrow> int list" where
  "list_insert (passed, rest) n = rev passed @ n # rest"

definition insert_in_numerical_order_list :: "int list \<Rightarrow> int \<Rightarrow> int list" where
  "insert_in_numerical_order_list l n =
     (if l = [] then l @ [n]
      else let it = list_scan (list_begin l) n in list_insert it n)"

subsection \<open>The two adaptors of \<open>IntegerSequence\<close>\<close>

datatype IntegerSequence = VectorAdaptor "int list" | ListAdaptor "int list"

fun insert_numerical :: "int \<Rightarrow> IntegerSequence \<Rightarrow> IntegerSequence" where
  "insert_numerical n (VectorAdaptor v) = VectorAdaptor (insert_in_numerical_order_vector v n)"
| "insert_numerical n (ListAdaptor l) = ListAdaptor (insert_in_numerical_order_list l n)"

text \<open>
  \<open>VectorAdaptor::remove\<close> is \<open>v.erase(v.begin() + i)\<close>: defined only for an index below the
  size. \<open>ListAdaptor::remove\<close> steps an iterator \<open>i\<close> times from \<open>l.begin()\<close> and erases there:
  stepping beyond \<open>end()\<close> and erasing at \<open>end()\<close> are both undefined.
\<close>

definition vector_erase :: "int list \<Rightarrow> nat \<Rightarrow> failure + int list" where
  "vector_erase v i = (if i < length v then Inr (take i v @ drop (Suc i) v) else Inl PastTheEnd)"

fun list_advance :: "nat \<Rightarrow> list_iterator \<Rightarrow> failure + list_iterator" where
  "list_advance 0 it = Inr it"
| "list_advance (Suc j) (passed, []) = Inl PastTheEnd"
| "list_advance (Suc j) (passed, x # rest) = list_advance j (x # passed, rest)"

fun list_erase :: "list_iterator \<Rightarrow> failure + int list" where
  "list_erase (passed, []) = Inl PastTheEnd"
| "list_erase (passed, x # rest) = Inr (rev passed @ rest)"

fun remove_seq :: "size_t \<Rightarrow> IntegerSequence \<Rightarrow> failure + IntegerSequence" where
  "remove_seq i (VectorAdaptor v) =
     (case vector_erase v (unat i) of Inl f \<Rightarrow> Inl f | Inr v' \<Rightarrow> Inr (VectorAdaptor v'))"
| "remove_seq i (ListAdaptor l) =
     (case list_advance (unat i) (list_begin l) of
        Inl f \<Rightarrow> Inl f
      | Inr it \<Rightarrow> (case list_erase it of Inl f \<Rightarrow> Inl f | Inr l' \<Rightarrow> Inr (ListAdaptor l')))"

fun size_seq :: "IntegerSequence \<Rightarrow> size_t" where
  "size_seq (VectorAdaptor v) = of_nat (length v)"
| "size_seq (ListAdaptor l) = of_nat (length l)"

fun empty_seq :: "IntegerSequence \<Rightarrow> bool" where
  "empty_seq (VectorAdaptor v) = (v = [])"
| "empty_seq (ListAdaptor l) = (l = [])"

text \<open>The elements of a sequence in iteration order, whatever the representation.\<close>

fun contents :: "IntegerSequence \<Rightarrow> int list" where
  "contents (VectorAdaptor v) = v"
| "contents (ListAdaptor l) = l"

text \<open>
  The states a sequence passes through: its contents after each of a series of
  \<open>insert_numerical\<close> calls, and the outcome of each of a series of \<open>remove\<close> calls
  (nothing follows a call that failed).
\<close>

fun insert_states :: "IntegerSequence \<Rightarrow> int list \<Rightarrow> int list list" where
  "insert_states s [] = []"
| "insert_states s (x # xs) =
     (let s' = insert_numerical x s in contents s' # insert_states s' xs)"

fun remove_states :: "IntegerSequence \<Rightarrow> size_t list \<Rightarrow> (failure + int list) list" where
  "remove_states s [] = []"
| "remove_states s (i # is) =
     (case remove_seq i s of
        Inl f \<Rightarrow> [Inl f]
      | Inr s' \<Rightarrow> Inr (contents s') # remove_states s' is)"

subsection \<open>The environment of a run\<close>

text \<open>
  What the program reads from outside is collected in an \<open>environment\<close>:
  \<^item> \<open>INT_SET\<close>, the global set of integers, as the list of its elements in iteration order
    (the program never changes it after start-up);
  \<^item> \<open>reseeded k\<close>, the stream of variates the global generator \<open>gen\<close> delivers after the
    \<open>k\<close>-th execution of \<open>gen.seed(random_device{}())\<close>;
  \<^item> \<open>now k\<close>, the \<open>k\<close>-th reading of \<open>chrono::high_resolution_clock::now()\<close>, in nanoseconds.

  What the program changes is the \<open>world\<close>: the variates still to come from \<open>gen\<close>, and the
  chronological log of the observable steps taken so far.
\<close>

record environment =
  INT_SET :: "int list"
  reseeded :: "nat \<Rightarrow> nat \<Rightarrow> nat"
  now :: "nat \<Rightarrow> 64 word"

datatype event = Reseed | ClockRead | CoreRun "size_t list"

record world =
  gen :: "nat \<Rightarrow> nat"
  log :: "event list"

definition DEFAULT_RUNS_PER_TEST :: size_t where
  "DEFAULT_RUNS_PER_TEST = 3"

definition MAX_TESTS :: int where
  "MAX_TESTS = 1000000"

definition DEFAULT_NUM_TESTS :: int where
  "DEFAULT_NUM_TESTS = 10000"

definition SIZE_MAX :: size_t where
  "SIZE_MAX = - 1"

definition INT_MIN :: int where
  "INT_MIN = - 2147483648"

definition INT_MAX :: int where
  "INT_MAX = 2147483647"

definition seed_gen :: "environment \<Rightarrow> world \<Rightarrow> world" where
  "seed_gen env w =
     w\<lparr>gen := reseeded env (count_list (log w) Reseed), log := log w @ [Reseed]\<rparr>"

definition clock_now :: "environment \<Rightarrow> world \<Rightarrow> 64 word \<times> world" where
  "clock_now env w = (now env (count_list (log w) ClockRead), w\<lparr>log := log w @ [ClockRead]\<rparr>)"

text \<open>
  Modelled from the spec: \<open>utils::random_size_t\<close> is called by \<open>test_n_\<close> but defined in no
  file of the repository (\<open>lvv.h\<close> has \<open>utils::random_int\<close> only, which draws from
  \<open>uniform_int_distribution(min, max)\<close> on \<open>gen\<close>, both bounds inclusive). The spec says of the
  call that it ``draws an index uniformly from \<open>[0, n - 1 - i]\<close>''. The model takes the next
  variate of \<open>gen\<close> and reduces it into the range from \<open>lo\<close> to \<open>hi\<close>, so that every value
  of the range can be drawn and nothing outside it.
\<close>

definition random_size_t :: "size_t \<Rightarrow> size_t \<Rightarrow> world \<Rightarrow> size_t \<times> world" where
  "random_size_t lo hi w =
     (lo + of_nat (gen w 0 mod (unat (hi - lo) + 1)), w\<lparr>gen := (\<lambda>j. gen w (Suc j))\<rparr>)"

subsection \<open>The removal plan built by \<open>test_n_\<close>\<close>

text \<open>
  \<open>for (size_t back = num_vals - 1; back < SIZE_MAX; back--)
      removal_indices.emplace_back(utils::random_size_t(0, back));\<close>
  The counter is unsigned: the loop ends when \<open>back--\<close> wraps from \<open>0\<close> to \<open>SIZE_MAX\<close>, and
  for \<open>num_vals = 0\<close> it starts at \<open>SIZE_MAX\<close> and does not run at all.
\<close>

function removal_loop :: "size_t \<Rightarrow> size_t list \<Rightarrow> world \<Rightarrow> size_t list \<times> world" where
  "removal_loop back removal_indices w =
     (if back < SIZE_MAX then
        (case random_size_t 0 back w of
           (r, w') \<Rightarrow> removal_loop (back - 1) (removal_indices @ [r]) w')
      else (removal_indices, w))"
  by pat_completeness auto
termination
proof (relation "measure (\<lambda>(back, removal_indices, w). unat (back + 1))")
  show "wf (measure (\<lambda>(back, removal_indices, w). unat (back + 1)))"
    by simp
next
  fix b :: size_t and removal_indices :: "size_t list" and w :: world
    and x :: "size_t \<times> world" and r :: size_t and w' :: world
  assume "b < SIZE_MAX"
  then have "b \<noteq> - 1"
    by (auto simp: SIZE_MAX_def)
  then have "1 + b \<noteq> 0"
    by (metis add.commute add_eq_0_iff)
  then have "unat (1 + b) = Suc (unat b)"
    by (rule unatSuc)
  then have "unat (b + 1) = Suc (unat b)"
    by (simp add: add.commute)
  then show "((b - 1, removal_indices @ [r], w'), (b, removal_indices, w))
      \<in> measure (\<lambda>(back, removal_indices, w). unat (back + 1))"
    by simp
qed

declare removal_loop.simps [simp del]

text \<open>
  \<open>vector<size_t> removal_indices{num_vals};\<close> is a list-initialisation: with braces the
  constructor taking an \<open>initializer_list\<close> is chosen, and the vector starts with the single
  element \<open>num_vals\<close>. The loop then appends to it.
\<close>

definition make_removal_indices :: "size_t \<Rightarrow> world \<Rightarrow> size_t list \<times> world" where
  "make_removal_indices num_vals w = removal_loop (num_vals - 1) [num_vals] w"

subsection \<open>\<open>test_n_core_\<close>\<close>

text \<open>
  The two functions the source marks INTERNAL, \<open>test_n_core_\<close> and \<open>test_n_\<close>, are
  \<open>test_n_core_internal\<close> and \<open>test_n_internal\<close> here.
\<close>

fun remove_all :: "IntegerSequence \<Rightarrow> size_t list \<Rightarrow> failure + IntegerSequence" where
  "remove_all seq [] = Inr seq"
| "remove_all seq (i # is) =
     (case remove_seq i seq of Inl f \<Rightarrow> Inl f | Inr seq' \<Rightarrow> remove_all seq' is)"

definition test_n_core_internal ::
  "environment \<Rightarrow> IntegerSequence \<Rightarrow> size_t list \<Rightarrow> failure + IntegerSequence" where
  "test_n_core_internal env seq removal_indices =
     (let num_vals = length removal_indices in
      if \<not> length (INT_SET env) \<ge> num_vals then Inl AssertionFailed
      else remove_all (fold insert_numerical (take num_vals (INT_SET env)) seq) removal_indices)"

text \<open>
  The same two loops, recording the contents of the sequence after every call
  (\<open>Inl\<close> where the call fails).
\<close>

definition test_n_core_internal_states ::
  "environment \<Rightarrow> IntegerSequence \<Rightarrow> size_t list \<Rightarrow> (failure + int list) list" where
  "test_n_core_internal_states env seq removal_indices =
     (let num_vals = length removal_indices in
      if \<not> length (INT_SET env) \<ge> num_vals then [Inl AssertionFailed]
      else map Inr (insert_states seq (take num_vals (INT_SET env)))
           @ remove_states (fold insert_numerical (take num_vals (INT_SET env)) seq)
               removal_indices)"

text \<open>
  A plan is valid for a sequence of \<open>n\<close> elements when each entry is an index into the
  sequence as it is when the entry is consumed.
\<close>

fun valid_plan :: "nat \<Rightarrow> size_t list \<Rightarrow> bool" where
  "valid_plan n [] = True"
| "valid_plan n (i # is) = (unat i < n \<and> valid_plan (n - 1) is)"

subsection \<open>\<open>test_n_\<close>: the measurement of one variant\<close>

text \<open>
  One iteration of the loop of \<open>test_n_\<close>: reseed, build the plan, check its last entry,
  read the clock, run the core, read the clock, add the difference to \<open>avg\<close>.
  \<open>removal_indices.at(removal_indices.size() - 1)\<close> cannot throw, the vector is never empty.
\<close>

definition test_n_iteration ::
  "environment \<Rightarrow> size_t \<Rightarrow> IntegerSequence \<times> 64 word \<times> world
     \<Rightarrow> failure + IntegerSequence \<times> 64 word \<times> world" where
  "test_n_iteration env num_vals state =
     (case state of (seq, avg, w) \<Rightarrow>
        (case make_removal_indices num_vals (seed_gen env w) of (removal_indices, w1) \<Rightarrow>
           if last removal_indices \<noteq> 0 then Inl AssertionFailed
           else
             (case clock_now env w1 of (start, w2) \<Rightarrow>
                (case test_n_core_internal env seq removal_indices of
                   Inl f \<Rightarrow> Inl f
                 | Inr seq' \<Rightarrow>
                     (case clock_now env (w2\<lparr>log := log w2 @ [CoreRun removal_indices]\<rparr>) of
                        (finish, w3) \<Rightarrow> Inr (seq', avg + (finish - start), w3))))))"

fun test_n_loop ::
  "environment \<Rightarrow> size_t \<Rightarrow> nat \<Rightarrow> IntegerSequence \<times> 64 word \<times> world
     \<Rightarrow> failure + IntegerSequence \<times> 64 word \<times> world" where
  "test_n_loop env num_vals 0 state = Inr state"
| "test_n_loop env num_vals (Suc k) state =
     (case test_n_iteration env num_vals state of
        Inl f \<Rightarrow> Inl f
      | Inr state' \<Rightarrow> test_n_loop env num_vals k state')"

text \<open>
  \<open>for(size_t i = 0; i < num_runs; ++i)\<close> runs \<open>unat num_runs\<close> times. Then
  \<open>avg / num_runs\<close> divides a \<open>chrono::nanoseconds\<close> by a \<open>size_t\<close>: the count is converted to
  the common type of \<open>int64_t\<close> and \<open>size_t\<close>, which is unsigned, and divided there. Nothing
  checks the divisor. The result is handed to the promise and returned.
\<close>

definition test_n_internal ::
  "environment \<Rightarrow> IntegerSequence \<Rightarrow> size_t \<Rightarrow> size_t \<Rightarrow> world
     \<Rightarrow> failure + 64 word \<times> IntegerSequence \<times> world" where
  "test_n_internal env seq num_vals num_runs w =
     (case test_n_loop env num_vals (unat num_runs) (seq, 0, w) of
        Inl f \<Rightarrow> Inl f
      | Inr (seq', avg, w') \<Rightarrow>
          if num_runs = 0 then Inl DivisionByZero
          else Inr (avg div num_runs, seq', w'))"

subsection \<open>\<open>test_n\<close> and \<open>test_block\<close>\<close>

text \<open>
  \<open>test_n\<close> checks the size of the universe, then starts one thread per adaptor and waits for
  both promises. The two threads are not synchronised with each other, and both reseed and draw
  from the one global \<open>gen\<close>; the model runs the vector thread to its end and then the list
  thread, which is one of the possible schedules.
\<close>

definition test_n ::
  "environment \<Rightarrow> size_t \<Rightarrow> size_t \<Rightarrow> world \<Rightarrow> failure + (64 word \<times> 64 word) \<times> world" where
  "test_n env num_vals num_runs w =
     (if \<not> length (INT_SET env) \<ge> unat num_vals then Inl AssertionFailed
      else
        (case test_n_internal env (VectorAdaptor []) num_vals num_runs w of
           Inl f \<Rightarrow> Inl f
         | Inr (vec_duration, v, w1) \<Rightarrow>
             (case test_n_internal env (ListAdaptor []) num_vals num_runs w1 of
                Inl f \<Rightarrow> Inl f
              | Inr (list_duration, l, w2) \<Rightarrow> Inr ((vec_duration, list_duration), w2))))"

text \<open>A row of the output: \<open>i, vec_duration, list_duration, list_duration - vec_duration\<close>.\<close>

type_synonym row = "size_t \<times> 64 word \<times> 64 word \<times> 64 word"

function test_block ::
  "environment \<Rightarrow> size_t \<Rightarrow> size_t \<Rightarrow> row list \<times> world
     \<Rightarrow> failure option \<times> row list \<times> world" where
  "test_block env i stop out =
     (case out of (output, w) \<Rightarrow>
        if i < stop then
          (case test_n env i DEFAULT_RUNS_PER_TEST w of
             Inl f \<Rightarrow> (Some f, output, w)
           | Inr ((vec_duration, list_duration), w') \<Rightarrow>
               test_block env (i + 1) stop
                 (output @ [(i, vec_duration, list_duration, list_duration - vec_duration)], w'))
        else (None, output, w))"
  by pat_completeness auto
termination
proof (relation "measure (\<lambda>(env, i, stop, out). unat stop - unat i)")
  show "wf (measure (\<lambda>(env, i, stop, out). unat stop - unat i))"
    by simp
next
  fix env :: environment and i stop :: size_t and out :: "row list \<times> world"
    and rows :: "row list" and w w' :: world and res :: "(64 word \<times> 64 word) \<times> world"
    and ds :: "64 word \<times> 64 word" and vec_duration list_duration :: "64 word"
  assume "i < stop"
  then have lt: "unat i < unat stop"
    by (simp add: word_less_nat_alt)
  have "unat stop < 2 ^ 64"
    using unsigned_less [of stop, where ?'a = nat] by simp
  with lt have "unat (i + 1) = Suc (unat i)"
    by (simp add: unat_word_ariths)
  with lt show "((env, i + 1, stop,
        rows @ [(i, vec_duration, list_duration, list_duration - vec_duration)], w'),
        (env, i, stop, out)) \<in> measure (\<lambda>(env, i, stop, out). unat stop - unat i)"
    by simp
qed

declare test_block.simps [simp del]

subsection \<open>The command line: \<open>std::stoi\<close>, \<open>lvv_parse_args\<close>, \<open>main\<close>\<close>

text \<open>
  \<open>std::stoi(str)\<close> with the default base 10 skips leading white space, reads an optional
  sign and then as many decimal digits as follow, and ignores whatever comes after them.
  It throws \<open>std::invalid_argument\<close> when there is no digit to read and
  \<open>std::out_of_range\<close> when the number does not fit an \<open>int\<close>.
\<close>

definition isspace :: "char \<Rightarrow> bool" where
  "isspace c = (c \<in> set [CHR '' '', CHR 0x09, CHR 0x0A, CHR 0x0B, CHR 0x0C, CHR 0x0D])"

definition isdigit :: "char \<Rightarrow> bool" where
  "isdigit c = (48 \<le> (of_char c :: nat) \<and> (of_char c :: nat) \<le> 57)"

definition decimal :: "string \<Rightarrow> int" where
  "decimal ds = foldl (\<lambda>acc c. 10 * acc + (int (of_char c) - 48)) 0 ds"

definition stoi :: "string \<Rightarrow> failure + int" where
  "stoi str =
     (let s = dropWhile isspace str;
          negative = (s \<noteq> [] \<and> hd s = CHR ''-'');
          unsigned = (if s \<noteq> [] \<and> (hd s = CHR ''-'' \<or> hd s = CHR ''+'') then tl s else s);
          ds = takeWhile isdigit unsigned;
          v = (if negative then - decimal ds else decimal ds)
      in if ds = [] then Inl InvalidArgument
         else if v < INT_MIN \<or> INT_MAX < v then Inl OutOfRange
         else Inr v)"

definition endl :: string where
  "endl = [CHR 0x0A]"

definition usage :: "string \<Rightarrow> string" where
  "usage argv0 = ''Usage: '' @ argv0 @ '' [optional: number of tests to run]'' @ endl"

definition lvv_parse_args :: "string list \<Rightarrow> failure + size_t" where
  "lvv_parse_args argv =
     (let argc = length argv in
      if argc < 1 then Inl AssertionFailed
      else if argc = 1 then Inr (of_int DEFAULT_NUM_TESTS)
      else if argc > 2 then Inl (Exited (usage (argv ! 0)) 1)
      else
        (case stoi (argv ! 1) of
           Inl f \<Rightarrow> Inl f
         | Inr tests \<Rightarrow>
             if tests < 0 then Inl (Exited (''Number of tests must be non-negative'' @ endl) 1)
             else if tests > MAX_TESTS then
               Inl (Exited (''Number of tests must be less than 1000000'' @ endl) 1)
             else Inr (of_int tests)))"

text \<open>
  \<open>main\<close> parses the arguments before it opens \<open>out.csv\<close>. Its outcome is the failure that
  ended the process, if any, and the file it wrote (\<open>None\<close> when the file was never opened):
  the header line and the rows.
\<close>

definition main ::
  "environment \<Rightarrow> string list \<Rightarrow> world \<Rightarrow> failure option \<times> (string \<times> row list) option" where
  "main env argv w =
     (case lvv_parse_args argv of
        Inl f \<Rightarrow> (Some f, None)
      | Inr num_tests \<Rightarrow>
          (case test_block env 0 num_tests ([], w) of
             (f, output, w') \<Rightarrow> (f, Some (''x,vectime,listtime,vecgain'', output))))"

subsection \<open>A small concrete run\<close>

text \<open>
  A universe of five values, a generator whose variates after the \<open>k\<close>-th reseeding are
  \<open>7k + 1\<close>, \<open>7k + 4\<close>, \<open>7k + 7\<close>, ..., and a clock whose \<open>k\<close>-th reading is
  \<open>100 k\<^sup>2\<close> nanoseconds. The theorems below are instantiated on it.
\<close>

definition example_env :: environment where
  "example_env = \<lparr>INT_SET = [5, 1, 4, 2, 7], reseeded = (\<lambda>k j. 7 * k + 3 * j + 1),
     now = (\<lambda>k. of_nat (100 * k * k))\<rparr>"

definition example_world :: world where
  "example_world = \<lparr>gen = (\<lambda>j. 0), log = []\<rparr>"

text \<open>
  What is seen of a call of \<open>test_n_\<close>: the failure, or the mean, the sequence and the log.
\<close>

fun observed ::
  "failure + 64 word \<times> IntegerSequence \<times> world
     \<Rightarrow> failure + 64 word \<times> IntegerSequence \<times> event list" where
  "observed (Inl f) = Inl f"
| "observed (Inr (mean, seq, w)) = Inr (mean, seq, log w)"

section \<open>Both adaptors compute the same ordered insertion and the same removal\<close>

lemma vector_scan_from:
  "it \<le> length v \<Longrightarrow> vector_scan v n it = it + length (takeWhile (\<lambda>x. x < n) (drop it v))"
proof (induction v n it rule: vector_scan.induct)
  case (1 v n it)
  show ?case
  proof (cases "it < length v")
    case inside: True
    then have d: "drop it v = v ! it # drop (Suc it) v"
      by (simp add: Cons_nth_drop_Suc)
    show ?thesis
    proof (cases "v ! it < n")
      case True
      with inside have "vector_scan v n it = vector_scan v n (Suc it)"
        by (subst vector_scan.simps) simp
      also have "\<dots> = Suc it + length (takeWhile (\<lambda>x. x < n) (drop (Suc it) v))"
        using "1.IH" inside True by simp
      finally show ?thesis
        using True d by simp
    next
      case False
      then have "vector_scan v n it = it"
        by (subst vector_scan.simps) simp
      with False d show ?thesis by simp
    qed
  next
    case False
    then have "vector_scan v n it = it"
      by (subst vector_scan.simps) simp
    with False show ?thesis by simp
  qed
qed

lemma take_length_takeWhile:
  "take (length (takeWhile P xs)) xs = takeWhile P xs"
  by (induction xs) auto

lemma drop_length_takeWhile:
  "drop (length (takeWhile P xs)) xs = dropWhile P xs"
  by (induction xs) auto

lemma insert_vector_eq:
  "insert_in_numerical_order_vector v n =
     takeWhile (\<lambda>x. x < n) v @ n # dropWhile (\<lambda>x. x < n) v"
  by (simp add: insert_in_numerical_order_vector_def vector_insert_def Let_def
      vector_scan_from take_length_takeWhile drop_length_takeWhile)

lemma list_scan_eq:
  "list_scan (passed, rest) n =
     (rev (takeWhile (\<lambda>x. x < n) rest) @ passed, dropWhile (\<lambda>x. x < n) rest)"
  by (induction rest arbitrary: passed) auto

lemma insert_list_eq:
  "insert_in_numerical_order_list l n =
     takeWhile (\<lambda>x. x < n) l @ n # dropWhile (\<lambda>x. x < n) l"
  by (simp add: insert_in_numerical_order_list_def list_begin_def Let_def list_scan_eq)

lemma contents_insert_numerical:
  "contents (insert_numerical n s) =
     takeWhile (\<lambda>x. x < n) (contents s) @ n # dropWhile (\<lambda>x. x < n) (contents s)"
  by (cases s) (simp_all add: insert_vector_eq insert_list_eq)

lemma sorted_insert_between:
  "sorted_wrt (<) (xs :: int list) \<Longrightarrow> n \<notin> set xs \<Longrightarrow>
   sorted_wrt (<) (takeWhile (\<lambda>x. x < n) xs @ n # dropWhile (\<lambda>x. x < n) xs)"
proof (induction xs)
  case Nil
  then show ?case by simp
next
  case (Cons a xs)
  show ?case
  proof (cases "a < n")
    case True
    have "set (takeWhile (\<lambda>x. x < n) xs) \<subseteq> set xs" "set (dropWhile (\<lambda>x. x < n) xs) \<subseteq> set xs"
      by (auto dest: set_takeWhileD set_dropWhileD)
    with Cons True show ?thesis by auto
  next
    case False
    with Cons.prems have "n < a" by auto
    with Cons.prems False show ?thesis by auto
  qed
qed

lemma set_insert_between:
  "set (takeWhile P xs @ n # dropWhile P xs) = insert n (set xs)"
  by (induction xs) auto

lemma length_insert_between:
  "length (takeWhile P xs @ n # dropWhile P xs) = Suc (length xs)"
  by (induction xs) auto

lemma size_seq_contents: "size_seq s = of_nat (length (contents s))"
  by (cases s) simp_all

lemma empty_seq_contents: "empty_seq s \<longleftrightarrow> contents s = []"
  by (cases s) simp_all

lemma fold_insert_numerical:
  "sorted_wrt (<) (contents s) \<Longrightarrow> distinct xs \<Longrightarrow> set xs \<inter> set (contents s) = {} \<Longrightarrow>
   sorted_wrt (<) (contents (fold insert_numerical xs s))
   \<and> set (contents (fold insert_numerical xs s)) = set xs \<union> set (contents s)"
proof (induction xs arbitrary: s)
  case Nil
  then show ?case by simp
next
  case (Cons x xs)
  let ?s = "insert_numerical x s"
  from Cons.prems have fresh: "x \<notin> set (contents s)" by auto
  have c: "contents ?s = takeWhile (\<lambda>y. y < x) (contents s) @ x # dropWhile (\<lambda>y. y < x) (contents s)"
    by (rule contents_insert_numerical)
  have srt: "sorted_wrt (<) (contents ?s)"
    unfolding c using Cons.prems(1) fresh by (rule sorted_insert_between)
  have st: "set (contents ?s) = insert x (set (contents s))"
    unfolding c by (rule set_insert_between)
  from Cons.prems st have disj: "set xs \<inter> set (contents ?s) = {}" by auto
  from Cons.prems have "distinct xs" by simp
  from Cons.IH [OF srt this disj] st show ?case by auto
qed

lemma length_fold_insert_numerical:
  "length (contents (fold insert_numerical xs s)) = length xs + length (contents s)"
proof (induction xs arbitrary: s)
  case Nil
  show ?case by simp
next
  case (Cons x xs)
  have "length (contents (insert_numerical x s)) = Suc (length (contents s))"
    unfolding contents_insert_numerical by (rule length_insert_between)
  with Cons show ?case by simp
qed

lemma insert_states_sorted:
  "sorted_wrt (<) (contents s) \<Longrightarrow> distinct xs \<Longrightarrow> set xs \<inter> set (contents s) = {} \<Longrightarrow>
   st \<in> set (insert_states s xs) \<Longrightarrow> sorted_wrt (<) st"
proof (induction xs arbitrary: s)
  case Nil
  then show ?case by simp
next
  case (Cons x xs)
  let ?s = "insert_numerical x s"
  from Cons.prems have fresh: "x \<notin> set (contents s)" by auto
  have c: "contents ?s = takeWhile (\<lambda>y. y < x) (contents s) @ x # dropWhile (\<lambda>y. y < x) (contents s)"
    by (rule contents_insert_numerical)
  have srt: "sorted_wrt (<) (contents ?s)"
    unfolding c using Cons.prems(1) fresh by (rule sorted_insert_between)
  have st: "set (contents ?s) = insert x (set (contents s))"
    unfolding c by (rule set_insert_between)
  from Cons.prems st have disj: "set xs \<inter> set (contents ?s) = {}" by auto
  from Cons.prems have d: "distinct xs" by simp
  from Cons.prems(4) have "st = contents ?s \<or> st \<in> set (insert_states ?s xs)"
    by (simp add: Let_def)
  then show ?case
  proof
    assume "st = contents ?s"
    with srt show ?thesis by simp
  next
    assume "st \<in> set (insert_states ?s xs)"
    with Cons.IH [OF srt d disj] show ?thesis .
  qed
qed

lemma insert_states_contents:
  "contents s = contents t \<Longrightarrow> insert_states s xs = insert_states t xs"
proof (induction xs arbitrary: s t)
  case Nil
  show ?case by simp
next
  case (Cons x xs)
  then have eq: "contents (insert_numerical x s) = contents (insert_numerical x t)"
    by (simp add: contents_insert_numerical)
  from Cons.IH [OF eq] eq show ?case by (simp add: Let_def)
qed

lemma contents_fold_insert_numerical:
  "contents s = contents t \<Longrightarrow>
   contents (fold insert_numerical xs s) = contents (fold insert_numerical xs t)"
proof (induction xs arbitrary: s t)
  case Nil
  then show ?case by simp
next
  case (Cons x xs)
  then have eq: "contents (insert_numerical x s) = contents (insert_numerical x t)"
    by (simp add: contents_insert_numerical)
  from Cons.IH [OF eq] show ?case by simp
qed

lemma list_advance_eq:
  "list_advance j (passed, rest) =
     (if j \<le> length rest then Inr (rev (take j rest) @ passed, drop j rest) else Inl PastTheEnd)"
proof (induction j arbitrary: passed rest)
  case 0
  show ?case by simp
next
  case (Suc j)
  show ?case
  proof (cases rest)
    case Nil
    then show ?thesis by simp
  next
    case (Cons x rest')
    with Suc show ?thesis by simp
  qed
qed

lemma remove_seq_Vector:
  "remove_seq i (VectorAdaptor v) =
     (if unat i < length v then Inr (VectorAdaptor (take (unat i) v @ drop (Suc (unat i)) v))
      else Inl PastTheEnd)"
  by (simp add: vector_erase_def)

lemma remove_seq_List:
  "remove_seq i (ListAdaptor l) =
     (if unat i < length l then Inr (ListAdaptor (take (unat i) l @ drop (Suc (unat i)) l))
      else Inl PastTheEnd)"
proof (cases "unat i < length l")
  case True
  then have "drop (unat i) l = l ! unat i # drop (Suc (unat i)) l"
    by (simp add: Cons_nth_drop_Suc)
  with True show ?thesis
    by (simp add: list_begin_def list_advance_eq)
next
  case False
  show ?thesis
  proof (cases "unat i \<le> length l")
    case True
    with False have "drop (unat i) l = []" by simp
    with True False show ?thesis
      by (simp add: list_begin_def list_advance_eq)
  next
    case False
    then show ?thesis
      by (simp add: list_begin_def list_advance_eq)
  qed
qed

lemma remove_seq_inside:
  "unat i < length (contents s) \<Longrightarrow>
   \<exists>s'. remove_seq i s = Inr s'
      \<and> contents s' = take (unat i) (contents s) @ drop (Suc (unat i)) (contents s)"
  by (cases s) (simp_all only: remove_seq_Vector remove_seq_List contents.simps, simp_all)

lemma remove_seq_outside:
  "\<not> unat i < length (contents s) \<Longrightarrow> remove_seq i s = Inl PastTheEnd"
  by (cases s) (simp_all only: remove_seq_Vector remove_seq_List contents.simps, simp_all)

lemma remove_states_contents:
  "contents s = contents t \<Longrightarrow> remove_states s plan = remove_states t plan"
proof (induction plan arbitrary: s t)
  case Nil
  show ?case by simp
next
  case (Cons i plan)
  show ?case
  proof (cases "unat i < length (contents s)")
    case True
    from remove_seq_inside [OF True] obtain s' where
      s': "remove_seq i s = Inr s'"
        "contents s' = take (unat i) (contents s) @ drop (Suc (unat i)) (contents s)"
      by blast
    from True Cons.prems have "unat i < length (contents t)" by simp
    from remove_seq_inside [OF this] obtain t' where
      t': "remove_seq i t = Inr t'"
        "contents t' = take (unat i) (contents t) @ drop (Suc (unat i)) (contents t)"
      by blast
    from s' t' Cons.prems have "contents s' = contents t'" by simp
    from Cons.IH [OF this] s' t' this show ?thesis by simp
  next
    case False
    with Cons.prems have "\<not> unat i < length (contents t)" by simp
    with False show ?thesis by (simp add: remove_seq_outside)
  qed
qed

lemma remove_all_valid:
  "valid_plan (length (contents s)) plan \<Longrightarrow>
   \<exists>s'. remove_all s plan = Inr s'
      \<and> length (contents s') = length (contents s) - length plan"
proof (induction plan arbitrary: s)
  case Nil
  show ?case by simp
next
  case (Cons i plan)
  then have inside: "unat i < length (contents s)" by simp
  from remove_seq_inside [OF this] obtain s1 where
    s1: "remove_seq i s = Inr s1"
      "contents s1 = take (unat i) (contents s) @ drop (Suc (unat i)) (contents s)"
    by blast
  from s1(2) inside have len: "length (contents s1) = length (contents s) - 1"
    by simp
  with Cons.prems have "valid_plan (length (contents s1)) plan" by simp
  from Cons.IH [OF this] obtain s' where
    "remove_all s1 plan = Inr s'" "length (contents s') = length (contents s1) - length plan"
    by blast
  with s1(1) len show ?case by simp
qed

lemma sorted_erase:
  assumes "sorted_wrt (<) (xs :: int list)"
  shows "sorted_wrt (<) (take i xs @ drop (Suc i) xs)"
proof -
  have "\<forall>x\<in>set (take i xs). \<forall>y\<in>set (drop (Suc i) xs). x < y"
  proof (intro ballI)
    fix x y
    assume "x \<in> set (take i xs)" "y \<in> set (drop (Suc i) xs)"
    then have "x \<in> set (take (Suc i) xs)" "y \<in> set (drop (Suc i) xs)"
      by (auto dest: in_set_takeD simp: take_Suc_conv_app_nth in_set_conv_nth nth_append)
    moreover from assms have "sorted_wrt (<) (take (Suc i) xs @ drop (Suc i) xs)"
      by simp
    ultimately show "x < y"
      unfolding sorted_wrt_append by blast
  qed
  with assms show ?thesis
    by (simp add: sorted_wrt_append sorted_wrt_take sorted_wrt_drop)
qed

lemma remove_states_sorted:
  "sorted_wrt (<) (contents s) \<Longrightarrow> Inr xs \<in> set (remove_states s plan) \<Longrightarrow> sorted_wrt (<) xs"
proof (induction plan arbitrary: s)
  case Nil
  then show ?case by simp
next
  case (Cons i plan)
  show ?case
  proof (cases "unat i < length (contents s)")
    case True
    from remove_seq_inside [OF True] obtain s' where
      s': "remove_seq i s = Inr s'"
        "contents s' = take (unat i) (contents s) @ drop (Suc (unat i)) (contents s)"
      by blast
    from s'(2) Cons.prems(1) have srt: "sorted_wrt (<) (contents s')"
      by (simp only: sorted_erase)
    from Cons.prems(2) s'(1) have "xs = contents s' \<or> Inr xs \<in> set (remove_states s' plan)"
      by simp
    with srt Cons.IH [OF srt] show ?thesis by blast
  next
    case False
    with Cons.prems(2) show ?thesis by (simp add: remove_seq_outside)
  qed
qed

lemma remove_all_states:
  "remove_all s plan = Inr s' \<Longrightarrow> plan \<noteq> [] \<Longrightarrow> last (remove_states s plan) = Inr (contents s')"
proof (induction plan arbitrary: s)
  case Nil
  then show ?case by simp
next
  case (Cons i plan)
  from Cons.prems(1) obtain s1 where s1: "remove_seq i s = Inr s1" "remove_all s1 plan = Inr s'"
    by (auto split: sum.splits)
  show ?case
  proof (cases "plan = []")
    case True
    with s1 show ?thesis by simp
  next
    case False
    then have "remove_states s1 plan \<noteq> []"
      by (cases plan) (auto split: sum.splits)
    with Cons.IH [OF s1(2) False] s1(1) show ?thesis by simp
  qed
qed

section \<open>Ordered insertion\<close>

text \<open>
  C4. For both adaptors: after \<open>insert_numerical\<close> of \<open>k\<close> distinct values into an empty sequence,
  \<open>size()\<close> is \<open>k\<close> and the elements, in iteration order, are the inserted values in strictly
  ascending order; the sequence is strictly ascending after every single insertion as well.
  Inserting 5, 1, 4, 2 in that order gives the successive states \<open>[5]\<close>, \<open>[1,5]\<close>,
  \<open>[1,4,5]\<close>, \<open>[1,2,4,5]\<close> in either adaptor.
\<close>

theorem insert_numerical_strictly_ascending:
  assumes "distinct xs" and "empty_seq s0"
  shows "size_seq (fold insert_numerical xs s0) = of_nat (length xs)
    \<and> length (contents (fold insert_numerical xs s0)) = length xs
    \<and> set (contents (fold insert_numerical xs s0)) = set xs
    \<and> sorted_wrt (<) (contents (fold insert_numerical xs s0))
    \<and> (\<forall>st \<in> set (insert_states s0 xs). sorted_wrt (<) st)
    \<and> insert_states (VectorAdaptor []) [5, 1, 4, 2] = [[5], [1, 5], [1, 4, 5], [1, 2, 4, 5]]
    \<and> insert_states (ListAdaptor []) [5, 1, 4, 2] = [[5], [1, 5], [1, 4, 5], [1, 2, 4, 5]]"
proof -
  from assms(2) have e: "contents s0 = []"
    by (simp add: empty_seq_contents)
  then have pre: "sorted_wrt (<) (contents s0)" "set xs \<inter> set (contents s0) = {}"
    by simp_all
  have len: "length (contents (fold insert_numerical xs s0)) = length xs"
    using e by (simp add: length_fold_insert_numerical)
  then have sz: "size_seq (fold insert_numerical xs s0) = of_nat (length xs)"
    by (simp add: size_seq_contents)
  from fold_insert_numerical [OF pre(1) assms(1) pre(2)] e
  have srt: "sorted_wrt (<) (contents (fold insert_numerical xs s0))"
    and st: "set (contents (fold insert_numerical xs s0)) = set xs"
    by simp_all
  have all: "\<forall>st \<in> set (insert_states s0 xs). sorted_wrt (<) st"
    using insert_states_sorted [OF pre(1) assms(1) pre(2)] by blast
  have ex1: "insert_states (VectorAdaptor []) [5, 1, 4, 2] = [[5], [1, 5], [1, 4, 5], [1, 2, 4, 5]]"
    by (simp add: Let_def insert_vector_eq)
  have ex2: "insert_states (ListAdaptor []) [5, 1, 4, 2] = [[5], [1, 5], [1, 4, 5], [1, 2, 4, 5]]"
    by (simp add: Let_def insert_list_eq)
  from sz len st srt all ex1 ex2 show ?thesis by blast
qed

text \<open>The hypotheses hold for the values 5, 1, 4, 2 and a fresh adaptor of either kind.\<close>

theorem insert_numerical_strictly_ascending_witness:
  "distinct [5, 1, 4, 2 :: int] \<and> empty_seq (ListAdaptor []) \<and> empty_seq (VectorAdaptor [])
   \<and> size_seq (fold insert_numerical [5, 1, 4, 2] (ListAdaptor [])) = 4
   \<and> sorted_wrt (<) (contents (fold insert_numerical [5, 1, 4, 2] (ListAdaptor [])))
   \<and> size_seq (fold insert_numerical [5, 1, 4, 2] (VectorAdaptor [])) = 4
   \<and> sorted_wrt (<) (contents (fold insert_numerical [5, 1, 4, 2] (VectorAdaptor [])))"
  using insert_numerical_strictly_ascending [of "[5, 1, 4, 2]" "ListAdaptor []"]
    insert_numerical_strictly_ascending [of "[5, 1, 4, 2]" "VectorAdaptor []"]
  by (simp add: insert_vector_eq insert_list_eq)

section \<open>Removal by position\<close>

text \<open>
  C5. For both adaptors and every index \<open>i\<close> below the number of elements, \<open>remove(i)\<close>
  returns, the sequence is one element shorter, and what is left is the old sequence without its
  \<open>i\<close>-th element, the others in their old order. The plan \<open>[1,2,0,0]\<close> applied to
  \<open>[1,2,4,5]\<close> gives \<open>[1,4,5]\<close>, \<open>[1,4]\<close>, \<open>[4]\<close>, \<open>[]\<close> in either adaptor.
\<close>

theorem remove_erases_indexed_element:
  assumes "unat i < length (contents s)"
  shows "(\<exists>s'. remove_seq i s = Inr s'
        \<and> contents s' = take (unat i) (contents s) @ drop (Suc (unat i)) (contents s)
        \<and> Suc (length (contents s')) = length (contents s)
        \<and> size_seq s' = size_seq s - 1)
    \<and> remove_states (VectorAdaptor [1, 2, 4, 5]) [1, 2, 0, 0]
        = [Inr [1, 4, 5], Inr [1, 4], Inr [4], Inr []]
    \<and> remove_states (ListAdaptor [1, 2, 4, 5]) [1, 2, 0, 0]
        = [Inr [1, 4, 5], Inr [1, 4], Inr [4], Inr []]"
proof -
  from remove_seq_inside [OF assms] obtain s' where
    s': "remove_seq i s = Inr s'"
      "contents s' = take (unat i) (contents s) @ drop (Suc (unat i)) (contents s)"
    by blast
  from s'(2) assms have len: "Suc (length (contents s')) = length (contents s)"
    by simp
  then have "size_seq s = size_seq s' + 1"
    by (simp add: size_seq_contents flip: len)
  then have sz: "size_seq s' = size_seq s - 1"
    by simp
  have ex1: "remove_states (VectorAdaptor [1, 2, 4, 5]) [1, 2, 0, 0]
        = [Inr [1, 4, 5], Inr [1, 4], Inr [4], Inr []]"
    by (simp add: remove_seq_Vector del: remove_seq.simps)
  have ex2: "remove_states (ListAdaptor [1, 2, 4, 5]) [1, 2, 0, 0]
        = [Inr [1, 4, 5], Inr [1, 4], Inr [4], Inr []]"
    by (simp add: remove_seq_List del: remove_seq.simps)
  from s' len sz ex1 ex2 show ?thesis by blast
qed

text \<open>Index 1 of the list-backed sequence \<open>[1,2,4,5]\<close>.\<close>

theorem remove_erases_indexed_element_witness:
  "unat (1 :: size_t) < length (contents (ListAdaptor [1, 2, 4, 5]))
   \<and> (\<exists>s'. remove_seq 1 (ListAdaptor [1, 2, 4, 5]) = Inr s' \<and> contents s' = [1, 4, 5])"
  using remove_erases_indexed_element [of 1 "ListAdaptor [1, 2, 4, 5]"]
  by (simp add: remove_seq_List del: remove_seq.simps)

section \<open>The benchmark core\<close>

lemma core_returns_empty:
  assumes "empty_seq seq"
    and "valid_plan (length removal_indices) removal_indices"
    and "length removal_indices \<le> length (INT_SET env)"
  shows "\<exists>seq'. test_n_core_internal env seq removal_indices = Inr seq' \<and> empty_seq seq'"
proof -
  let ?filled = "fold insert_numerical (take (length removal_indices) (INT_SET env)) seq"
  from assms(1,3) have "length (contents ?filled) = length removal_indices"
    by (simp add: length_fold_insert_numerical empty_seq_contents)
  with assms(2) remove_all_valid [of ?filled removal_indices]
  obtain seq' where "remove_all ?filled removal_indices = Inr seq'" "length (contents seq') = 0"
    by auto
  with assms(3) show ?thesis
    by (simp add: test_n_core_internal_def empty_seq_contents)
qed

text \<open>
  C3. For either adaptor, started empty, and every removal plan whose entries are each a valid
  index for the size the sequence has when the entry is consumed (and for which the universe has
  enough values, so that the assertion of the core holds), \<open>test_n_core_\<close> runs its two
  phases, returns, and leaves the sequence empty.
\<close>

theorem core_leaves_sequence_empty:
  assumes "empty_seq seq"
    and "valid_plan (length removal_indices) removal_indices"
    and "length removal_indices \<le> length (INT_SET env)"
  shows "\<exists>seq'. test_n_core_internal env seq removal_indices = Inr seq' \<and> empty_seq seq'"
  using assms by (rule core_returns_empty)

text \<open>The plan \<open>[1,2,0,0]\<close> over the universe of \<open>example_env\<close>.\<close>

theorem core_leaves_sequence_empty_witness:
  "empty_seq (VectorAdaptor []) \<and> valid_plan (length [1, 2, 0, 0 :: size_t]) [1, 2, 0, 0]
   \<and> length [1, 2, 0, 0 :: size_t]
        \<le> length (INT_SET example_env)
   \<and> (\<exists>seq'. test_n_core_internal example_env
          (VectorAdaptor []) [1, 2, 0, 0] = Inr seq' \<and> empty_seq seq')"
  using core_leaves_sequence_empty [of "VectorAdaptor []" "[1, 2, 0, 0]"
      "example_env"]
  by (simp add: example_env_def)

lemma remove_all_states_failure:
  "remove_all s plan = Inl f \<Longrightarrow> last (remove_states s plan) = Inl f"
proof (induction plan arbitrary: s)
  case Nil
  then show ?case by simp
next
  case (Cons i plan)
  show ?case
  proof (cases "remove_seq i s")
    case (Inl g)
    with Cons.prems show ?thesis by simp
  next
    case (Inr s1)
    with Cons.prems have r: "remove_all s1 plan = Inl f" by simp
    then have "plan \<noteq> []" by auto
    then have "remove_states s1 plan \<noteq> []"
      by (cases plan) (auto split: sum.splits)
    with Cons.IH [OF r] Inr show ?thesis by simp
  qed
qed

lemma core_states_failure:
  "test_n_core_internal env seq removal_indices = Inl f \<Longrightarrow>
   last (test_n_core_internal_states env seq removal_indices) = Inl f"
proof -
  assume a: "test_n_core_internal env seq removal_indices = Inl f"
  let ?filled = "fold insert_numerical (take (length removal_indices) (INT_SET env)) seq"
  show ?thesis
  proof (cases "length removal_indices \<le> length (INT_SET env)")
    case False
    with a show ?thesis
      by (simp add: test_n_core_internal_def test_n_core_internal_states_def Let_def)
  next
    case True
    with a have r: "remove_all ?filled removal_indices = Inl f"
      by (simp add: test_n_core_internal_def Let_def)
    then have "removal_indices \<noteq> []" by auto
    then have "remove_states ?filled removal_indices \<noteq> []"
      by (cases removal_indices) (auto split: sum.splits)
    with remove_all_states_failure [OF r] True show ?thesis
      by (simp add: test_n_core_internal_states_def Let_def)
  qed
qed

lemma core_states_last:
  "test_n_core_internal env seq removal_indices = Inr seq' \<Longrightarrow> removal_indices \<noteq> [] \<Longrightarrow>
   last (test_n_core_internal_states env seq removal_indices) = Inr (contents seq')"
proof -
  assume a: "test_n_core_internal env seq removal_indices = Inr seq'" "removal_indices \<noteq> []"
  let ?filled = "fold insert_numerical (take (length removal_indices) (INT_SET env)) seq"
  from a(1) have le: "length removal_indices \<le> length (INT_SET env)"
    and r: "remove_all ?filled removal_indices = Inr seq'"
    by (auto simp: test_n_core_internal_def Let_def split: if_splits)
  from a(2) have "remove_states ?filled removal_indices \<noteq> []"
    by (cases removal_indices) (auto split: sum.splits)
  with remove_all_states [OF r a(2)] le show ?thesis
    by (simp add: test_n_core_internal_states_def Let_def)
qed

text \<open>
  C2. For every universe and every removal plan, the run of \<open>test_n_core_\<close> on a fresh
  \<open>VectorAdaptor\<close> and its run on a fresh \<open>ListAdaptor\<close> pass through the same contents after
  every \<open>insert_numerical\<close> and every \<open>remove\<close> (and fail at the same call, if one fails).
  With a universe of distinct values every one of these contents is strictly ascending. With a
  plan that is valid and not longer than the universe, both runs return and both sequences end
  empty.
\<close>

theorem adaptors_pass_through_same_states:
  "test_n_core_internal_states env (VectorAdaptor []) removal_indices
     = test_n_core_internal_states env (ListAdaptor []) removal_indices
   \<and> (distinct (INT_SET env) \<longrightarrow>
        (\<forall>xs. Inr xs \<in> set (test_n_core_internal_states env (VectorAdaptor []) removal_indices)
           \<longrightarrow> sorted_wrt (<) xs))
   \<and> (valid_plan (length removal_indices) removal_indices
        \<and> length removal_indices \<le> length (INT_SET env) \<longrightarrow>
        (\<exists>v l. test_n_core_internal env (VectorAdaptor []) removal_indices = Inr v \<and> empty_seq v
             \<and> test_n_core_internal env (ListAdaptor []) removal_indices = Inr l \<and> empty_seq l))"
proof (intro conjI impI allI)
  let ?xs = "take (length removal_indices) (INT_SET env)"
  have c0: "contents (VectorAdaptor []) = contents (ListAdaptor [])"
    by simp
  have "insert_states (VectorAdaptor []) ?xs = insert_states (ListAdaptor []) ?xs"
    using c0 by (rule insert_states_contents)
  moreover have "remove_states (fold insert_numerical ?xs (VectorAdaptor [])) removal_indices
      = remove_states (fold insert_numerical ?xs (ListAdaptor [])) removal_indices"
    using c0 by (intro remove_states_contents contents_fold_insert_numerical)
  ultimately show "test_n_core_internal_states env (VectorAdaptor []) removal_indices
     = test_n_core_internal_states env (ListAdaptor []) removal_indices"
    by (simp add: test_n_core_internal_states_def Let_def)
next
  fix xs
  let ?xs = "take (length removal_indices) (INT_SET env)"
  let ?s0 = "VectorAdaptor []"
  assume d: "distinct (INT_SET env)"
    and m: "Inr xs \<in> set (test_n_core_internal_states env ?s0 removal_indices)"
  from d have dx: "distinct ?xs" by simp
  have pre: "sorted_wrt (<) (contents ?s0)" "set ?xs \<inter> set (contents ?s0) = {}"
    by simp_all
  from m have "xs \<in> set (insert_states ?s0 ?xs)
      \<or> Inr xs \<in> set (remove_states (fold insert_numerical ?xs ?s0) removal_indices)"
    by (auto simp: test_n_core_internal_states_def Let_def split: if_splits)
  then show "sorted_wrt (<) xs"
  proof
    assume "xs \<in> set (insert_states ?s0 ?xs)"
    with insert_states_sorted [OF pre(1) dx pre(2)] show ?thesis .
  next
    assume r: "Inr xs \<in> set (remove_states (fold insert_numerical ?xs ?s0) removal_indices)"
    from fold_insert_numerical [OF pre(1) dx pre(2)]
    have "sorted_wrt (<) (contents (fold insert_numerical ?xs ?s0))" by blast
    from remove_states_sorted [OF this r] show ?thesis .
  qed
next
  assume a: "valid_plan (length removal_indices) removal_indices
        \<and> length removal_indices \<le> length (INT_SET env)"
  have "empty_seq (VectorAdaptor [])" "empty_seq (ListAdaptor [])"
    by simp_all
  with a core_returns_empty [of "VectorAdaptor []" removal_indices env]
    core_returns_empty [of "ListAdaptor []" removal_indices env]
  show "\<exists>v l. test_n_core_internal env (VectorAdaptor []) removal_indices = Inr v \<and> empty_seq v
             \<and> test_n_core_internal env (ListAdaptor []) removal_indices = Inr l \<and> empty_seq l"
    by blast
qed

text \<open>
  The plan \<open>[1,2,0,0]\<close> over the universe of \<open>example_env\<close>: the eight states of the list
  adaptor, which are those of the vector adaptor.
\<close>

theorem adaptors_pass_through_same_states_witness:
  "distinct (INT_SET example_env) \<and> valid_plan (length [1, 2, 0, 0 :: size_t]) [1, 2, 0, 0]
   \<and> length [1, 2, 0, 0 :: size_t] \<le> length (INT_SET example_env)
   \<and> test_n_core_internal_states example_env (ListAdaptor []) [1, 2, 0, 0]
       = [Inr [5], Inr [1, 5], Inr [1, 4, 5], Inr [1, 2, 4, 5],
          Inr [1, 4, 5], Inr [1, 4], Inr [4], Inr []]
   \<and> test_n_core_internal_states example_env (VectorAdaptor []) [1, 2, 0, 0]
       = test_n_core_internal_states example_env (ListAdaptor []) [1, 2, 0, 0]
   \<and> (\<exists>v l. test_n_core_internal example_env (VectorAdaptor []) [1, 2, 0, 0] = Inr v \<and> empty_seq v
         \<and> test_n_core_internal example_env (ListAdaptor []) [1, 2, 0, 0] = Inr l \<and> empty_seq l)"
proof -
  have s: "test_n_core_internal_states example_env (ListAdaptor []) [1, 2, 0, 0]
       = [Inr [5], Inr [1, 5], Inr [1, 4, 5], Inr [1, 2, 4, 5],
          Inr [1, 4, 5], Inr [1, 4], Inr [4], Inr []]"
    by (simp add: test_n_core_internal_states_def example_env_def Let_def insert_list_eq
        remove_seq_List del: remove_seq.simps)
  have h: "distinct (INT_SET example_env)" "valid_plan (length [1, 2, 0, 0 :: size_t]) [1, 2, 0, 0]"
    "length [1, 2, 0, 0 :: size_t] \<le> length (INT_SET example_env)"
    by (simp_all add: example_env_def)
  with s adaptors_pass_through_same_states [of example_env "[1, 2, 0, 0]"] show ?thesis
    by blast
qed

section \<open>The removal plan\<close>

lemma random_size_t_range: "fst (random_size_t 0 b w) \<le> b"
proof -
  let ?m = "gen w 0 mod (unat b + 1)"
  have le: "?m \<le> unat b"
    by (metis Suc_eq_plus1 less_Suc_eq_le mod_less_divisor zero_less_Suc)
  have "unat b < 2 ^ LENGTH(64)"
    by (rule unsigned_less)
  with le have "?m < 2 ^ LENGTH(64)"
    by (rule le_less_trans)
  then have "unat (of_nat ?m :: size_t) = ?m"
    by (simp add: unat_of_nat)
  with le have "(of_nat ?m :: size_t) \<le> b"
    by (simp add: word_le_nat_alt)
  then show ?thesis
    by (simp add: random_size_t_def)
qed

lemma random_size_t_log: "log (snd (random_size_t lo hi w)) = log w"
  by (simp add: random_size_t_def)

lemma not_below_SIZE_MAX: "\<not> b < SIZE_MAX \<Longrightarrow> b = - 1"
  unfolding SIZE_MAX_def by (metis word_order.not_eq_extremum)

lemma below_SIZE_MAX_Suc: "b < SIZE_MAX \<Longrightarrow> unat (b + 1) = Suc (unat b)"
proof -
  assume "b < SIZE_MAX"
  then have "b \<noteq> - 1"
    by (auto simp: SIZE_MAX_def)
  then have "1 + b \<noteq> 0"
    by (metis add.commute add_eq_0_iff)
  then have "unat (1 + b) = Suc (unat b)"
    by (rule unatSuc)
  then show ?thesis
    by (simp add: add.commute)
qed

lemma removal_loop_shape:
  "\<exists>ds. fst (removal_loop b acc w) = acc @ ds \<and> length ds = unat (b + 1)
       \<and> valid_plan (unat (b + 1)) ds \<and> (b \<noteq> - 1 \<longrightarrow> last ds = 0)"
proof (induction b acc w rule: removal_loop.induct)
  case (1 b acc w)
  show ?case
  proof (cases "b < SIZE_MAX")
    case False
    then have "b = - 1" by (rule not_below_SIZE_MAX)
    moreover from False have "removal_loop b acc w = (acc, w)"
      by (subst removal_loop.simps) simp
    ultimately show ?thesis by simp
  next
    case True
    obtain r w' where rw: "random_size_t 0 b w = (r, w')"
      by (cases "random_size_t 0 b w")
    have rb: "r \<le> b"
      using random_size_t_range [of b w] rw by simp
    from "1.IH" [OF True rw [symmetric]]
    obtain ds where ds: "fst (removal_loop (b - 1) (acc @ [r]) w') = (acc @ [r]) @ ds"
      "length ds = unat (b - 1 + 1)" "valid_plan (unat (b - 1 + 1)) ds"
      "b - 1 \<noteq> - 1 \<longrightarrow> last ds = 0"
      by blast
    have step: "removal_loop b acc w = removal_loop (b - 1) (acc @ [r]) w'"
      using True rw by (subst removal_loop.simps) simp
    have suc: "unat (b + 1) = Suc (unat b)"
      using True by (rule below_SIZE_MAX_Suc)
    have "unat r < Suc (unat b)"
      using rb by (simp add: word_le_nat_alt)
    with ds suc have shape: "fst (removal_loop b acc w) = acc @ (r # ds)"
      "length (r # ds) = unat (b + 1)" "valid_plan (unat (b + 1)) (r # ds)"
      by (simp_all add: step)
    have "last (r # ds) = 0"
    proof (cases "b = 0")
      case True
      with rb ds(2) show ?thesis by simp
    next
      case False
      then have "unat b \<noteq> 0" by (simp add: unat_eq_zero)
      with ds(2) have "ds \<noteq> []" by auto
      moreover from False ds(4) have "last ds = 0" by simp
      ultimately show ?thesis by simp
    qed
    with shape show ?thesis by blast
  qed
qed

lemma removal_loop_log: "log (snd (removal_loop b acc w)) = log w"
proof (induction b acc w rule: removal_loop.induct)
  case (1 b acc w)
  show ?case
  proof (cases "b < SIZE_MAX")
    case False
    then have "removal_loop b acc w = (acc, w)"
      by (subst removal_loop.simps) simp
    then show ?thesis by simp
  next
    case True
    obtain r w' where rw: "random_size_t 0 b w = (r, w')"
      by (cases "random_size_t 0 b w")
    have step: "removal_loop b acc w = removal_loop (b - 1) (acc @ [r]) w'"
      using True rw by (subst removal_loop.simps) simp
    from random_size_t_log [of 0 b w] rw have "log w' = log w" by simp
    with "1.IH" [OF True rw [symmetric]] step show ?thesis by simp
  qed
qed

lemma make_removal_indices_shape:
  "\<exists>ds. fst (make_removal_indices num_vals w) = num_vals # ds \<and> length ds = unat num_vals
       \<and> valid_plan (unat num_vals) ds \<and> last (num_vals # ds) = 0"
proof -
  from removal_loop_shape [of "num_vals - 1" "[num_vals]" w]
  obtain ds where ds: "fst (make_removal_indices num_vals w) = num_vals # ds"
    "length ds = unat num_vals" "valid_plan (unat num_vals) ds"
    "num_vals - 1 \<noteq> - 1 \<longrightarrow> last ds = 0"
    by (auto simp: make_removal_indices_def)
  have "last (num_vals # ds) = 0"
  proof (cases "num_vals = 0")
    case True
    with ds(2) show ?thesis by simp
  next
    case False
    then have "unat num_vals \<noteq> 0" by (simp add: unat_eq_zero)
    with ds(2) have "ds \<noteq> []" by auto
    moreover from False ds(4) have "last ds = 0" by simp
    ultimately show ?thesis by simp
  qed
  with ds show ?thesis by blast
qed

lemma make_removal_indices_log: "log (snd (make_removal_indices num_vals w)) = log w"
  by (simp add: make_removal_indices_def removal_loop_log)

lemma make_removal_indices_valid:
  "valid_plan (length (fst (make_removal_indices num_vals w))) (fst (make_removal_indices num_vals w))
   \<and> length (fst (make_removal_indices num_vals w)) = Suc (unat num_vals)
   \<and> last (fst (make_removal_indices num_vals w)) = 0"
proof -
  from make_removal_indices_shape [of num_vals w]
  obtain ds where ds: "fst (make_removal_indices num_vals w) = num_vals # ds"
    "length ds = unat num_vals" "valid_plan (unat num_vals) ds" "last (num_vals # ds) = 0"
    by blast
  then show ?thesis by simp
qed

lemma SIZE_MAX_numeral: "SIZE_MAX = 18446744073709551615"
  by (simp add: SIZE_MAX_def)

text \<open>
  C1. The claim is that the plan \<open>test_n_\<close> builds for \<open>num_vals = n\<close> has exactly \<open>n\<close> entries,
  entry \<open>i\<close> drawn from \<open>[0, n - 1 - i]\<close>, the last one 0. The plan the code builds has
  \<open>n + 1\<close> entries: the list-initialised vector already holds \<open>num_vals\<close> when the loop starts
  appending. Its first entry is \<open>n\<close>; the \<open>n\<close> entries after it are the draws, the \<open>i\<close>-th of
  them at most \<open>n - 1 - i\<close>; the last entry is 0, as the assertion of \<open>test_n_\<close> checks.
  For \<open>num_vals = 4\<close> on \<open>example_env\<close> the plan is \<open>[4, 1, 1, 1, 0]\<close>.
\<close>

theorem removal_plan_has_leading_extra_entry:
  "length (fst (make_removal_indices num_vals w)) = Suc (unat num_vals)
   \<and> hd (fst (make_removal_indices num_vals w)) = num_vals
   \<and> valid_plan (unat num_vals) (tl (fst (make_removal_indices num_vals w)))
   \<and> last (fst (make_removal_indices num_vals w)) = 0
   \<and> fst (make_removal_indices 4 (seed_gen example_env example_world)) = [4, 1, 1, 1, 0]"
proof -
  from make_removal_indices_shape [of num_vals w]
  have "length (fst (make_removal_indices num_vals w)) = Suc (unat num_vals)
   \<and> hd (fst (make_removal_indices num_vals w)) = num_vals
   \<and> valid_plan (unat num_vals) (tl (fst (make_removal_indices num_vals w)))
   \<and> last (fst (make_removal_indices num_vals w)) = 0"
    by auto
  moreover have "fst (make_removal_indices 4 (seed_gen example_env example_world))
      = [4, 1, 1, 1, 0]"
    by code_simp
  ultimately show ?thesis by blast
qed

section \<open>The measurement of one variant\<close>

lemma test_n_iteration_result:
  assumes "test_n_iteration env num_vals (seq, avg, w) = Inr (seq', avg', w')"
  shows "\<exists>plan. test_n_core_internal env seq plan = Inr seq'
      \<and> log w' = log w @ [Reseed, ClockRead, CoreRun plan, ClockRead]
      \<and> avg' = avg + (now env (Suc (count_list (log w) ClockRead))
                        - now env (count_list (log w) ClockRead))"
proof -
  obtain plan w1 where m: "make_removal_indices num_vals (seed_gen env w) = (plan, w1)"
    by (cases "make_removal_indices num_vals (seed_gen env w)")
  from make_removal_indices_log [of num_vals "seed_gen env w"] m
  have l1: "log w1 = log w @ [Reseed]"
    by (simp add: seed_gen_def)
  from assms m l1 have "test_n_core_internal env seq plan = Inr seq'
      \<and> log w' = log w @ [Reseed, ClockRead, CoreRun plan, ClockRead]
      \<and> avg' = avg + (now env (Suc (count_list (log w) ClockRead))
                        - now env (count_list (log w) ClockRead))"
    by (auto simp: test_n_iteration_def clock_now_def split: if_splits sum.splits)
  then show ?thesis by blast
qed

lemma test_n_iteration_succeeds:
  assumes "empty_seq seq" and "unat num_vals < length (INT_SET env)"
  shows "\<exists>seq' avg' w'. test_n_iteration env num_vals (seq, avg, w) = Inr (seq', avg', w')
      \<and> empty_seq seq'"
proof -
  obtain plan w1 where m: "make_removal_indices num_vals (seed_gen env w) = (plan, w1)"
    by (cases "make_removal_indices num_vals (seed_gen env w)")
  from make_removal_indices_valid [of num_vals "seed_gen env w"] m
  have v: "valid_plan (length plan) plan" "length plan = Suc (unat num_vals)" "last plan = 0"
    by auto
  from v(2) assms(2) have "length plan \<le> length (INT_SET env)"
    by simp
  with assms(1) v(1) have "\<exists>seq'. test_n_core_internal env seq plan = Inr seq' \<and> empty_seq seq'"
    by (simp add: core_returns_empty)
  then obtain seq' where "test_n_core_internal env seq plan = Inr seq'" "empty_seq seq'"
    by blast
  with m v(3) show ?thesis
    by (simp add: test_n_iteration_def clock_now_def)
qed

lemma test_n_loop_result:
  "test_n_loop env num_vals k (seq, avg, w) = Inr (seq', avg', w') \<Longrightarrow>
   \<exists>plans. length plans = k
     \<and> log w' = log w @ concat (map (\<lambda>plan. [Reseed, ClockRead, CoreRun plan, ClockRead]) plans)
     \<and> avg' = avg + sum_list (map (\<lambda>j. now env (count_list (log w) ClockRead + 2 * j + 1)
                                        - now env (count_list (log w) ClockRead + 2 * j)) [0..<k])"
proof (induction k arbitrary: seq avg w)
  case 0
  then show ?case by simp
next
  case (Suc k)
  let ?c = "count_list (log w) ClockRead"
  from Suc.prems obtain seq1 avg1 w1 where
    it: "test_n_iteration env num_vals (seq, avg, w) = Inr (seq1, avg1, w1)"
    and rest: "test_n_loop env num_vals k (seq1, avg1, w1) = Inr (seq', avg', w')"
    by (auto split: sum.splits)
  from test_n_iteration_result [OF it] obtain plan where
    p: "log w1 = log w @ [Reseed, ClockRead, CoreRun plan, ClockRead]"
      "avg1 = avg + (now env (Suc ?c) - now env ?c)"
    by blast
  from p(1) have c1: "count_list (log w1) ClockRead = ?c + 2"
    by simp
  from Suc.IH [OF rest] obtain plans where
    ps: "length plans = k"
      "log w' = log w1 @ concat (map (\<lambda>plan. [Reseed, ClockRead, CoreRun plan, ClockRead]) plans)"
      "avg' = avg1 + sum_list (map (\<lambda>j. now env (count_list (log w1) ClockRead + 2 * j + 1)
                                        - now env (count_list (log w1) ClockRead + 2 * j)) [0..<k])"
    by blast
  have split: "[0..<Suc k] = 0 # map Suc [0..<k]"
    by (simp add: upt_conv_Cons map_Suc_upt del: upt_Suc)
  have sum: "sum_list (map (\<lambda>j. now env (?c + 2 * j + 1) - now env (?c + 2 * j)) [0..<Suc k])
      = (now env (Suc ?c) - now env ?c)
        + sum_list (map (\<lambda>j. now env (?c + 2 + 2 * j + 1) - now env (?c + 2 + 2 * j)) [0..<k])"
    unfolding split by (simp add: comp_def add.assoc add.commute add.left_commute)
  have "length (plan # plans) = Suc k"
    using ps(1) by simp
  moreover have "log w' = log w
      @ concat (map (\<lambda>plan. [Reseed, ClockRead, CoreRun plan, ClockRead]) (plan # plans))"
    using ps(2) p(1) by simp
  moreover have "avg' = avg
      + sum_list (map (\<lambda>j. now env (?c + 2 * j + 1) - now env (?c + 2 * j)) [0..<Suc k])"
    unfolding sum using ps(3) p(2) c1 by (simp add: add.assoc)
  ultimately show ?case by blast
qed

lemma test_n_loop_succeeds:
  "empty_seq seq \<Longrightarrow> unat num_vals < length (INT_SET env) \<Longrightarrow>
   \<exists>seq' avg' w'. test_n_loop env num_vals k (seq, avg, w) = Inr (seq', avg', w') \<and> empty_seq seq'"
proof (induction k arbitrary: seq avg w)
  case 0
  then show ?case by simp
next
  case (Suc k)
  from test_n_iteration_succeeds [OF Suc.prems, of avg w] obtain seq1 avg1 w1 where
    it: "test_n_iteration env num_vals (seq, avg, w) = Inr (seq1, avg1, w1)" "empty_seq seq1"
    by blast
  from Suc.IH [OF it(2) Suc.prems(2), of avg1 w1] it(1) show ?case
    by simp
qed

lemma test_n_internal_result:
  assumes "test_n_internal env seq num_vals num_runs w = Inr (mean, seq', w')"
  shows "num_runs \<noteq> 0
    \<and> (\<exists>plans. length plans = unat num_runs
          \<and> log w' = log w
               @ concat (map (\<lambda>plan. [Reseed, ClockRead, CoreRun plan, ClockRead]) plans))
    \<and> mean = sum_list (map (\<lambda>j. now env (count_list (log w) ClockRead + 2 * j + 1)
                                 - now env (count_list (log w) ClockRead + 2 * j))
                         [0..<unat num_runs]) div num_runs"
proof -
  from assms obtain avg where
    l: "test_n_loop env num_vals (unat num_runs) (seq, 0, w) = Inr (seq', avg, w')"
    and nz: "num_runs \<noteq> 0" and m: "mean = avg div num_runs"
    by (auto simp: test_n_internal_def split: sum.splits if_splits)
  from test_n_loop_result [OF l] m nz show ?thesis
    by auto
qed

lemma test_n_internal_succeeds:
  assumes "num_runs \<noteq> 0" and "empty_seq seq" and "unat num_vals < length (INT_SET env)"
  shows "\<exists>mean seq' w'. test_n_internal env seq num_vals num_runs w = Inr (mean, seq', w')
      \<and> empty_seq seq'"
proof -
  from test_n_loop_succeeds [OF assms(2,3), of "unat num_runs" 0 w] obtain seq' avg w' where
    "test_n_loop env num_vals (unat num_runs) (seq, 0, w) = Inr (seq', avg, w')" "empty_seq seq'"
    by blast
  with assms(1) show ?thesis
    by (simp add: test_n_internal_def)
qed

lemma word_nonzero_ge_1: "(w :: size_t) \<noteq> 0 \<longleftrightarrow> 1 \<le> w"
  by (simp add: word_le_nat_alt unat_eq_zero [symmetric] Suc_le_eq del: unat_eq_zero)

text \<open>
  C6, as stated, fails: \<open>test_n_\<close> has no warm-up. One repetition for \<open>num_vals = 1\<close> on
  \<open>example_env\<close> reseeds, reads the clock (0 ns), runs the core once, reads the clock (100 ns)
  and returns 100 ns as the mean: the core ran once, not twice, and the duration of its first
  execution is the result instead of being discarded.
\<close>

theorem warm_up_run_counterexample:
  "observed (test_n_internal example_env (VectorAdaptor []) 1 1 example_world)
     = Inr (100, VectorAdaptor [], [Reseed, ClockRead, CoreRun [1, 0], ClockRead])"
  by (simp add: test_n_internal_def test_n_iteration_def test_n_core_internal_def
      clock_now_def make_removal_indices_def removal_loop.simps random_size_t_def seed_gen_def
      example_env_def example_world_def SIZE_MAX_numeral insert_vector_eq remove_seq_Vector
      del: remove_seq.simps)

text \<open>
  C6, amended. A call of \<open>test_n_\<close> that returns has executed the core exactly \<open>num_runs\<close>
  times, every execution after a reseeding and between two readings of the clock, and nothing
  precedes the first of them: there is no unmeasured execution. The value returned is the sum of
  these \<open>num_runs\<close> clock differences divided by \<open>num_runs\<close>.
\<close>

theorem measurement_has_no_warm_up_run:
  assumes "test_n_internal env seq num_vals num_runs w = Inr (mean, seq', w')"
  shows "(\<exists>plans. length plans = unat num_runs
          \<and> log w' = log w
               @ concat (map (\<lambda>plan. [Reseed, ClockRead, CoreRun plan, ClockRead]) plans))
    \<and> mean = sum_list (map (\<lambda>j. now env (count_list (log w) ClockRead + 2 * j + 1)
                                 - now env (count_list (log w) ClockRead + 2 * j))
                         [0..<unat num_runs]) div num_runs"
  using test_n_internal_result [OF assms] by blast

text \<open>
  One repetition for \<open>num_vals = 1\<close> on \<open>example_env\<close>: the core runs once, between the
  clock readings 0 and 100, and the mean returned is its duration.
\<close>

theorem measurement_has_no_warm_up_run_witness:
  "\<exists>mean seq' w'.
     test_n_internal example_env (VectorAdaptor []) 1 1 example_world = Inr (mean, seq', w')
     \<and> log w' = [Reseed, ClockRead, CoreRun [1, 0], ClockRead]
     \<and> mean = 100"
proof -
  have "(1 :: size_t) \<noteq> 0" "empty_seq (VectorAdaptor [])"
    "unat (1 :: size_t) < length (INT_SET example_env)"
    by (simp_all add: example_env_def)
  from test_n_internal_succeeds [OF this, of example_world] obtain mean seq' w' where
    r: "test_n_internal example_env (VectorAdaptor []) 1 1 example_world = Inr (mean, seq', w')"
    by blast
  from measurement_has_no_warm_up_run [OF r] obtain plans where
    p: "length plans = 1" "log w' = concat (map (\<lambda>plan. [Reseed, ClockRead, CoreRun plan, ClockRead]) plans)"
    and m: "mean = 100"
    by (auto simp: example_env_def example_world_def)
  from r p have "log w' = [Reseed, ClockRead, CoreRun [1, 0], ClockRead]"
    by (auto simp add: test_n_internal_def test_n_iteration_def test_n_core_internal_def
        clock_now_def make_removal_indices_def removal_loop.simps random_size_t_def seed_gen_def
        example_env_def example_world_def SIZE_MAX_numeral insert_vector_eq remove_seq_Vector
        simp del: remove_seq.simps)
  with r m show ?thesis by blast
qed

text \<open>
  C10. \<open>test_n_\<close> divides the accumulated duration by \<open>num_runs\<close> without a guard:
  with \<open>num_runs = 0\<close> the loop does not run and the division is a division by zero, so a call
  that returns a mean has \<open>num_runs \<ge> 1\<close>. With \<open>num_runs \<ge> 1\<close>, an empty sequence and a
  universe of more than \<open>num_vals\<close> values the call does return a mean.
\<close>

theorem mean_division_is_unguarded:
  "test_n_internal env seq num_vals 0 w = Inl DivisionByZero
   \<and> (\<forall>r. test_n_internal env seq num_vals num_runs w = Inr r \<longrightarrow> 1 \<le> num_runs)
   \<and> (1 \<le> num_runs \<and> empty_seq seq \<and> unat num_vals < length (INT_SET env) \<longrightarrow>
        (\<exists>mean seq' w'. test_n_internal env seq num_vals num_runs w = Inr (mean, seq', w')))"
proof (intro conjI allI impI)
  show "test_n_internal env seq num_vals 0 w = Inl DivisionByZero"
    by (simp add: test_n_internal_def)
next
  fix r
  assume "test_n_internal env seq num_vals num_runs w = Inr r"
  then have "num_runs \<noteq> 0"
    by (auto simp: test_n_internal_def split: sum.splits if_splits)
  then show "1 \<le> num_runs"
    by (simp only: word_nonzero_ge_1)
next
  assume a: "1 \<le> num_runs \<and> empty_seq seq \<and> unat num_vals < length (INT_SET env)"
  then have "num_runs \<noteq> 0"
    by (simp only: word_nonzero_ge_1)
  with a test_n_internal_succeeds [of num_runs seq num_vals env w]
  show "\<exists>mean seq' w'. test_n_internal env seq num_vals num_runs w = Inr (mean, seq', w')"
    by blast
qed

text \<open>
  Zero and three repetitions for \<open>num_vals = 2\<close> on \<open>example_env\<close>.
\<close>

theorem mean_division_is_unguarded_witness:
  "test_n_internal example_env (ListAdaptor []) 2 0 example_world = Inl DivisionByZero
   \<and> (1 :: size_t) \<le> 3 \<and> empty_seq (ListAdaptor [])
   \<and> unat (2 :: size_t) < length (INT_SET example_env)
   \<and> (\<exists>mean seq' w'.
         test_n_internal example_env (ListAdaptor []) 2 3 example_world = Inr (mean, seq', w')
         \<and> 1 \<le> (3 :: size_t))"
  using mean_division_is_unguarded [of example_env "ListAdaptor []" 2 example_world 3]
  by (simp add: example_env_def)

section \<open>Requests beyond the universe\<close>

text \<open>
  C7. When the requested \<open>num_vals\<close> exceeds the number of values in \<open>INT_SET\<close>, the
  assertion at the head of \<open>test_n\<close> fails (in a checked build, which is what the model
  describes); \<open>test_block\<close> stops there with the rows written so far and adds no row for that
  request. The core itself asserts the same of the plan it is given. Nowhere is the request cut
  down to the size of the universe.
\<close>

theorem oversized_request_fails_assertion:
  "(length (INT_SET env) < unat num_vals \<longrightarrow>
      test_n env num_vals num_runs w = Inl AssertionFailed)
   \<and> (length (INT_SET env) < unat num_vals \<and> num_vals < stop \<longrightarrow>
      test_block env num_vals stop (output, w) = (Some AssertionFailed, output, w))
   \<and> (length (INT_SET env) < length removal_indices \<longrightarrow>
      test_n_core_internal env seq removal_indices = Inl AssertionFailed)"
proof (intro conjI impI)
  assume "length (INT_SET env) < unat num_vals"
  then show "test_n env num_vals num_runs w = Inl AssertionFailed"
    by (simp add: test_n_def)
next
  assume "length (INT_SET env) < unat num_vals \<and> num_vals < stop"
  then show "test_block env num_vals stop (output, w) = (Some AssertionFailed, output, w)"
    by (subst test_block.simps) (simp add: test_n_def)
next
  assume "length (INT_SET env) < length removal_indices"
  then show "test_n_core_internal env seq removal_indices = Inl AssertionFailed"
    by (simp add: test_n_core_internal_def)
qed

text \<open>
  A request for six values from the five of \<open>example_env\<close>.
\<close>

theorem oversized_request_fails_assertion_witness:
  "length (INT_SET example_env) < unat (6 :: size_t) \<and> (6 :: size_t) < 7
   \<and> test_n example_env 6 3 example_world = Inl AssertionFailed
   \<and> test_block example_env 6 7 ([], example_world) = (Some AssertionFailed, [], example_world)
   \<and> length (INT_SET example_env) < length [5, 4, 3, 2, 1, 0 :: size_t]
   \<and> test_n_core_internal example_env (VectorAdaptor []) [5, 4, 3, 2, 1, 0] = Inl AssertionFailed"
  using oversized_request_fails_assertion [of example_env 6 3 example_world 7 "[]"
      "[5, 4, 3, 2, 1, 0]" "VectorAdaptor []"]
  by (simp add: example_env_def)

section \<open>The command line\<close>

lemma stoi_append:
  assumes "stoi s = Inr v" and "rest = [] \<or> \<not> isdigit (hd rest)"
  shows "stoi (s @ rest) = Inr v"
proof -
  define t where "t = dropWhile isspace s"
  define u where "u = (if t \<noteq> [] \<and> (hd t = CHR ''-'' \<or> hd t = CHR ''+'') then tl t else t)"
  have s_eq: "stoi s =
      (let ds = takeWhile isdigit u;
           v = (if t \<noteq> [] \<and> hd t = CHR ''-'' then - decimal ds else decimal ds)
       in if ds = [] then Inl InvalidArgument
          else if v < INT_MIN \<or> INT_MAX < v then Inl OutOfRange
          else Inr v)"
    by (simp add: stoi_def Let_def t_def u_def)
  from assms(1) have ds: "takeWhile isdigit u \<noteq> []"
    unfolding s_eq by (auto simp: Let_def split: if_splits)
  have u: "u \<noteq> []"
  proof
    assume "u = []"
    with ds show False by simp
  qed
  have t: "t \<noteq> []"
  proof
    assume "t = []"
    with u show False by (simp add: u_def)
  qed
  then have "\<not> (\<forall>x\<in>set s. isspace x)"
    by (simp add: t_def dropWhile_eq_Nil_conv)
  then have t': "dropWhile isspace (s @ rest) = t @ rest"
    by (auto simp: dropWhile_append t_def)
  have r: "takeWhile isdigit rest = []"
    using assms(2) by (cases rest) auto
  have tk: "takeWhile isdigit (u @ rest) = takeWhile isdigit u"
  proof (cases "\<forall>x\<in>set u. isdigit x")
    case True
    then have e: "takeWhile isdigit u = u"
      by (simp add: takeWhile_eq_all_conv)
    from True have "takeWhile isdigit (u @ rest) = u @ takeWhile isdigit rest"
      by (simp add: takeWhile_append)
    with r e show ?thesis by (simp only: append_Nil2)
  next
    case False
    then show ?thesis by (auto simp: takeWhile_append)
  qed
  have u': "(if t @ rest \<noteq> [] \<and> (hd (t @ rest) = CHR ''-'' \<or> hd (t @ rest) = CHR ''+'')
      then tl (t @ rest) else t @ rest) = u @ rest"
    using t by (simp add: u_def)
  have n': "(t @ rest \<noteq> [] \<and> hd (t @ rest) = CHR ''-'') = (t \<noteq> [] \<and> hd t = CHR ''-'')"
    using t by simp
  have "stoi (s @ rest) = stoi s"
    unfolding s_eq unfolding stoi_def t' Let_def u' n' tk by (rule refl)
  with assms(1) show ?thesis by simp
qed

text \<open>
  C8, as stated, fails for an argument that is not an integer: \<open>std::stoi\<close> throws
  \<open>std::invalid_argument\<close> for \<open>abc\<close>, nothing catches it, and the process ends without a
  usage message. A number that does not fit an \<open>int\<close> ends it the same way with
  \<open>std::out_of_range\<close>, and \<open>12abc\<close> is accepted as 12.
\<close>

theorem non_integer_argument_counterexample:
  "main example_env [''lvv'', ''abc''] example_world = (Some InvalidArgument, None)
   \<and> lvv_parse_args [''lvv'', ''99999999999''] = Inl OutOfRange
   \<and> lvv_parse_args [''lvv'', ''12abc''] = Inr 12"
  by (simp add: main_def lvv_parse_args_def stoi_def isspace_def isdigit_def decimal_def Let_def
      INT_MIN_def INT_MAX_def MAX_TESTS_def)

text \<open>
  C8, amended. With more than one argument \<open>main\<close> writes the usage message to \<open>cerr\<close> and
  exits with status 1. A single argument is handled as \<open>std::stoi\<close> reads it, and what
  \<open>std::stoi\<close> reads does not change when text that does not begin with a digit is appended to
  the argument. If it reads a negative number, or a number above \<open>MAX_TESTS\<close>, \<open>main\<close> writes
  the matching message to \<open>cerr\<close> and exits with status 1. If it reads a number from 0 to
  \<open>MAX_TESTS\<close>, the argument is accepted as that number. If it rejects the argument, the process
  ends with the uncaught exception (\<open>std::invalid_argument\<close> or \<open>std::out_of_range\<close>) and no
  message of the program's own. In every case of rejection \<open>out.csv\<close> is never opened.
\<close>

theorem command_line_outcomes:
  "(2 < length argv \<longrightarrow> main env argv w = (Some (Exited (usage (argv ! 0)) 1), None))
   \<and> (stoi s = Inr tests \<and> (rest = [] \<or> \<not> isdigit (hd rest)) \<longrightarrow>
        stoi (s @ rest) = Inr tests)
   \<and> (length argv = 2 \<and> stoi (argv ! 1) = Inr tests \<and> tests < 0 \<longrightarrow>
        main env argv w
          = (Some (Exited (''Number of tests must be non-negative'' @ endl) 1), None))
   \<and> (length argv = 2 \<and> stoi (argv ! 1) = Inr tests \<and> MAX_TESTS < tests \<longrightarrow>
        main env argv w
          = (Some (Exited (''Number of tests must be less than 1000000'' @ endl) 1), None))
   \<and> (length argv = 2 \<and> stoi (argv ! 1) = Inr tests \<and> 0 \<le> tests \<and> tests \<le> MAX_TESTS \<longrightarrow>
        lvv_parse_args argv = Inr (of_int tests))
   \<and> (length argv = 2 \<and> stoi (argv ! 1) = Inl f \<longrightarrow>
        main env argv w = (Some f, None) \<and> (f = InvalidArgument \<or> f = OutOfRange))"
proof (intro conjI impI)
  assume "2 < length argv"
  then show "main env argv w = (Some (Exited (usage (argv ! 0)) 1), None)"
    by (auto simp: main_def lvv_parse_args_def Let_def)
next
  assume "stoi s = Inr tests \<and> (rest = [] \<or> \<not> isdigit (hd rest))"
  then show "stoi (s @ rest) = Inr tests"
    by (simp only: stoi_append)
next
  assume "length argv = 2 \<and> stoi (argv ! 1) = Inr tests \<and> tests < 0"
  then show "main env argv w
      = (Some (Exited (''Number of tests must be non-negative'' @ endl) 1), None)"
    by (simp add: main_def lvv_parse_args_def Let_def)
next
  assume "length argv = 2 \<and> stoi (argv ! 1) = Inr tests \<and> MAX_TESTS < tests"
  then show "main env argv w
      = (Some (Exited (''Number of tests must be less than 1000000'' @ endl) 1), None)"
    by (simp add: main_def lvv_parse_args_def Let_def MAX_TESTS_def)
next
  assume "length argv = 2 \<and> stoi (argv ! 1) = Inr tests \<and> 0 \<le> tests \<and> tests \<le> MAX_TESTS"
  then show "lvv_parse_args argv = Inr (of_int tests)"
    by (simp add: lvv_parse_args_def Let_def)
next
  assume a: "length argv = 2 \<and> stoi (argv ! 1) = Inl f"
  then show "main env argv w = (Some f, None)"
    by (simp add: main_def lvv_parse_args_def Let_def)
  from a show "f = InvalidArgument \<or> f = OutOfRange"
    by (auto simp: stoi_def Let_def split: if_splits)
qed

text \<open>
  Two arguments; \<open>-3abc\<close>, read as \<open>-3\<close>; \<open>1000001\<close>; \<open>12abc\<close>, read as 12 and accepted;
  \<open>abc\<close>.
\<close>

theorem command_line_outcomes_witness:
  "2 < length [''lvv'', ''3'', ''4'']
   \<and> main example_env [''lvv'', ''3'', ''4''] example_world
       = (Some (Exited (usage ''lvv'') 1), None)
   \<and> stoi ''-3'' = Inr (- 3) \<and> \<not> isdigit (hd ''abc'') \<and> stoi (''-3'' @ ''abc'') = Inr (- 3)
   \<and> length [''lvv'', ''-3abc''] = 2 \<and> (- 3 :: int) < 0
   \<and> main example_env [''lvv'', ''-3abc''] example_world
       = (Some (Exited (''Number of tests must be non-negative'' @ endl) 1), None)
   \<and> length [''lvv'', ''1000001''] = 2 \<and> stoi ([''lvv'', ''1000001''] ! 1) = Inr 1000001
   \<and> MAX_TESTS < 1000001
   \<and> main example_env [''lvv'', ''1000001''] example_world
       = (Some (Exited (''Number of tests must be less than 1000000'' @ endl) 1), None)
   \<and> length [''lvv'', ''12abc''] = 2 \<and> stoi ([''lvv'', ''12abc''] ! 1) = Inr 12
   \<and> (0 :: int) \<le> 12 \<and> 12 \<le> MAX_TESTS
   \<and> lvv_parse_args [''lvv'', ''12abc''] = Inr 12
   \<and> length [''lvv'', ''abc''] = 2 \<and> stoi ([''lvv'', ''abc''] ! 1) = Inl InvalidArgument
   \<and> main example_env [''lvv'', ''abc''] example_world = (Some InvalidArgument, None)"
proof -
  have s1: "stoi ''-3'' = Inr (- 3)" and s2: "stoi ''1000001'' = Inr 1000001"
    and s3: "stoi ''abc'' = Inl InvalidArgument" and s4: "stoi ''12abc'' = Inr 12"
    and d: "\<not> isdigit (hd ''abc'')"
    by (simp_all add: stoi_def isspace_def isdigit_def decimal_def Let_def INT_MIN_def INT_MAX_def)
  from s1 d command_line_outcomes [where s = "''-3''" and tests = "- 3" and rest = "''abc''"]
  have s5: "stoi ''-3abc'' = Inr (- 3)"
    by simp
  from s1 s2 s3 s4 s5 d
    command_line_outcomes [where argv = "[''lvv'', ''3'', ''4'']" and env = example_env
      and w = example_world]
    command_line_outcomes [where argv = "[''lvv'', ''-3abc'']" and tests = "- 3"
      and env = example_env and w = example_world]
    command_line_outcomes [where argv = "[''lvv'', ''1000001'']" and tests = 1000001
      and env = example_env and w = example_world]
    command_line_outcomes [where argv = "[''lvv'', ''12abc'']" and tests = 12]
    command_line_outcomes [where argv = "[''lvv'', ''abc'']" and f = InvalidArgument
      and env = example_env and w = example_world]
  show ?thesis
    by (simp add: MAX_TESTS_def)
qed

end
